theory Spec2Isabelle
  imports Complex_Main "HOL-Library.Multiset"
begin

section \<open>Errors\<close>

text \<open>
  The Python exceptions that the modelled code can raise. \<open>KeyError\<close> is a missing dictionary
  key (a node that is not in a graph, a graph attribute that was never set), \<open>IndexError\<close> is
  \<open>trees[0]\<close> on an empty list and \<open>random.choice\<close> on an empty sequence, \<open>ValueError\<close> is
  \<open>random.sample\<close> with a sample size outside the population, \<open>ZeroDivisionError\<close> is the
  division by \<open>len(subscribers)\<close> when that is zero, \<open>NotImplementedError\<close> is what the
  constructor raises for a topology type it does not know.
\<close>

datatype error = KeyError | IndexError | ValueError | ZeroDivisionError | NotImplementedError

section \<open>Graphs of the networkx library\<close>

text \<open>
  An undirected \<open>networkx.Graph\<close> keeps a dictionary \<open>adj\<close> from each node to the dictionary
  of its neighbours, and a dictionary \<open>graph\<close> of graph attributes. The model keeps the keys of
  \<open>adj\<close> (the nodes) as the list \<open>nodes\<close>, the neighbours of a node \<open>u\<close> as the list
  \<open>adj G u\<close> (read only where \<open>u\<close> is a key), and of the attributes the one the experiment
  uses, \<open>graph['heuristic']\<close>, which is \<open>None\<close> while it has not been set.
\<close>

record 'n graph =
  nodes :: "'n list"
  adj :: "'n \<Rightarrow> 'n list"
  heuristic :: "string option"

text \<open>
  The library keeps every graph symmetric and closed: a neighbour of a node is a node, and
  lists the node among its own neighbours.
\<close>

definition wf_graph :: "'n graph \<Rightarrow> bool" where
  "wf_graph G = (\<forall>u \<in> set (nodes G). \<forall>v \<in> set (adj G u).
     v \<in> set (nodes G) \<and> u \<in> set (adj G v))"

text \<open>
  \<open>Graph.remove_edges_from(ebunch)\<close>: for each \<open>(u, v)\<close>, if \<open>u in adj and v in adj[u]\<close>
  then \<open>del adj[u][v]\<close> and, unless \<open>u == v\<close>, \<open>del adj[v][u]\<close>; an edge that is not in the
  graph is skipped silently. In a symmetric graph the second deletion always finds its key.
\<close>

definition remove_edge :: "'n \<times> 'n \<Rightarrow> 'n graph \<Rightarrow> 'n graph" where
  "remove_edge e G =
     (let u = fst e; v = snd e in
      if u \<in> set (nodes G) \<and> v \<in> set (adj G u)
      then let a1 = (adj G)(u := removeAll v (adj G u));
               a2 = (if u \<noteq> v then a1(v := removeAll u (a1 v)) else a1)
           in G\<lparr>adj := a2\<rparr>
      else G)"

definition remove_edges_from :: "('n \<times> 'n) list \<Rightarrow> 'n graph \<Rightarrow> 'n graph" where
  "remove_edges_from ebunch G = fold remove_edge ebunch G"

text \<open>
  \<open>Graph.remove_nodes_from(nodes)\<close>: for each \<open>n\<close>, inside \<open>try ... except KeyError: pass\<close>,
  delete the node, then \<open>for u in list(adj[n]): del adj[u][n]\<close>, then \<open>del adj[n]\<close>; a node
  that is not in the graph is skipped silently. Deleting the key \<open>n\<close> is taking it out of
  \<open>nodes\<close>; \<open>adj\<close> is not read again at a node that is no longer a key.
\<close>

definition remove_node :: "'n \<Rightarrow> 'n graph \<Rightarrow> 'n graph" where
  "remove_node n G =
     (if n \<in> set (nodes G)
      then G\<lparr>nodes := removeAll n (nodes G),
             adj := fold (\<lambda>u a. a(u := removeAll n (a u))) (adj G n) (adj G)\<rparr>
      else G)"

definition remove_nodes_from :: "'n list \<Rightarrow> 'n graph \<Rightarrow> 'n graph" where
  "remove_nodes_from ns G = fold remove_node ns G"

text \<open>
  \<open>single_source_shortest_path(G, source)\<close> is a breadth-first search by levels:
  \<^verbatim>\<open>
    nextlevel = {source: 1}
    paths = {source: [source]}
    while nextlevel:
        thislevel = nextlevel
        nextlevel = {}
        for v in thislevel:
            for w in G[v]:
                if w not in paths:
                    paths[w] = paths[v] + [w]
                    nextlevel[w] = 1
    return paths
  \<close>
  The caller only takes \<open>set(paths)\<close>, the keys, so the model keeps the keys of \<open>paths\<close> and
  of \<open>nextlevel\<close> in insertion order. \<open>G[v]\<close> raises \<open>KeyError\<close> when \<open>v\<close> is not a node
  of \<open>G\<close> (later versions of the library raise \<open>NodeNotFound\<close> for a missing source); the
  level loop visits every \<open>v\<close> of \<open>thislevel\<close>, so a level raises exactly when one of its
  nodes is not in the graph.
\<close>

definition visit :: "'n \<Rightarrow> 'n list \<times> 'n list \<Rightarrow> 'n list \<times> 'n list" where
  "visit w st = (if w \<in> set (fst st) then st else (fst st @ [w], snd st @ [w]))"

definition expand :: "'n graph \<Rightarrow> 'n list \<Rightarrow> 'n list \<Rightarrow> 'n list \<times> 'n list" where
  "expand G thislevel paths = fold (\<lambda>v st. fold visit (adj G v) st) thislevel (paths, [])"

lemma fold_visit_sets:
  "set (fst (fold visit ws st)) = set (fst st) \<union> set ws \<and>
   set (snd (fold visit ws st)) = set (snd st) \<union> (set ws - set (fst st))"
  by (induction ws arbitrary: st) (auto simp: visit_def)

lemma fold_expand_sets:
  "set (fst (fold (\<lambda>v st. fold visit (adj G v) st) vs st)) =
     set (fst st) \<union> (\<Union>v \<in> set vs. set (adj G v)) \<and>
   set (snd (fold (\<lambda>v st. fold visit (adj G v) st) vs st)) =
     set (snd st) \<union> ((\<Union>v \<in> set vs. set (adj G v)) - set (fst st))"
proof (induction vs arbitrary: st)
  case Nil
  then show ?case by simp
next
  case (Cons v vs)
  show ?case
    using Cons.IH [of "fold visit (adj G v) st"] fold_visit_sets [of "adj G v" st]
    by auto
qed

lemma expand_paths: "set (fst (expand G lv ps)) = set ps \<union> (\<Union>v \<in> set lv. set (adj G v))"
  using fold_expand_sets [of G lv "(ps, [])"] by (simp add: expand_def)

lemma expand_next: "set (snd (expand G lv ps)) = (\<Union>v \<in> set lv. set (adj G v)) - set ps"
  using fold_expand_sets [of G lv "(ps, [])"] by (simp add: expand_def)

definition bfs_measure :: "'n graph \<times> 'n list \<times> 'n list \<Rightarrow> nat" where
  "bfs_measure = (\<lambda>(G, thislevel, paths).
     2 * card (set (nodes G) - set paths) +
     (if thislevel \<noteq> [] \<and> set thislevel \<subseteq> set (nodes G) then 1 else 0))"

function bfs :: "'n graph \<Rightarrow> 'n list \<Rightarrow> 'n list \<Rightarrow> error + 'n list" where
  "bfs G thislevel paths =
     (if thislevel = [] then Inr paths
      else if \<not> set thislevel \<subseteq> set (nodes G) then Inl KeyError
      else bfs G (snd (expand G thislevel paths)) (fst (expand G thislevel paths)))"
  by pat_completeness auto

lemma bfs_measure_decreases:
  assumes "thislevel \<noteq> []" and "set thislevel \<subseteq> set (nodes G)"
  shows "bfs_measure (G, snd (expand G thislevel paths), fst (expand G thislevel paths))
           < bfs_measure (G, thislevel, paths)"
proof -
  let ?N = "set (nodes G)"
  let ?nx = "snd (expand G thislevel paths)"
  let ?ps = "fst (expand G thislevel paths)"
  have sub: "?N - set ?ps \<subseteq> ?N - set paths"
    by (auto simp: expand_paths)
  have le: "card (?N - set ?ps) \<le> card (?N - set paths)"
    by (rule card_mono) (use sub in auto)
  show ?thesis
  proof (cases "?nx \<noteq> [] \<and> set ?nx \<subseteq> ?N")
    case False
    then show ?thesis using le assms by (auto simp: bfs_measure_def)
  next
    case True
    then obtain w where w: "w \<in> set ?nx" by (cases ?nx) auto
    with True have wN: "w \<in> ?N" by auto
    from w have "w \<notin> set paths" "w \<in> set ?ps"
      by (auto simp: expand_next expand_paths)
    with wN have "?N - set ?ps \<subset> ?N - set paths" using sub by auto
    then have "card (?N - set ?ps) < card (?N - set paths)"
      by (intro psubset_card_mono) auto
    then show ?thesis using assms by (auto simp: bfs_measure_def)
  qed
qed

termination bfs
  by (relation "measure (\<lambda>(G, thislevel, paths). bfs_measure (G, thislevel, paths))")
     (use bfs_measure_decreases in auto)

declare bfs.simps [simp del]

definition single_source_shortest_path :: "'n graph \<Rightarrow> 'n \<Rightarrow> error + 'n list" where
  "single_source_shortest_path G source = bfs G [source] [source]"

section \<open>The heap of graph objects\<close>

text \<open>
  \<open>get_reachability\<close> edits the graphs it is given in place, and the same graph object can be
  reached through several references, so graph objects live in a heap: \<open>objs h a\<close> is the
  graph at address \<open>a\<close>, and \<open>top h\<close> is the first address not in use yet, where the next
  new object is put.
\<close>

record 'n heap =
  objs :: "nat \<Rightarrow> 'n graph"
  top :: nat

section \<open>The reachability evaluator\<close>

text \<open>
  The loop of \<open>get_reachability\<close> over \<open>topologies\<close>, carrying the set
  \<open>all_subscribers_reachable\<close>. The argument of \<open>log.debug\<close> is built before the call,
  whatever the log level, and it reads \<open>topology.graph['heuristic']\<close>: a graph without that
  attribute raises \<open>KeyError\<close> there.
\<close>

fun reach_loop ::
  "'n list \<Rightarrow> ('n \<times> 'n) list \<Rightarrow> 'n \<Rightarrow> 'n set \<Rightarrow> nat list \<Rightarrow> 'n set \<Rightarrow> 'n heap
     \<Rightarrow> (error + 'n set) \<times> 'n heap" where
  "reach_loop failed_nodes failed_links server subscribers [] all_reachable h =
     (Inr all_reachable, h)"
| "reach_loop failed_nodes failed_links server subscribers (t # ts) all_reachable h =
     (let h1 = h\<lparr>objs := (objs h)(t := remove_edges_from failed_links (objs h t))\<rparr>;
          h2 = h1\<lparr>objs := (objs h1)(t := remove_nodes_from failed_nodes (objs h1 t))\<rparr>
      in case single_source_shortest_path (objs h2 t) server of
           Inl e \<Rightarrow> (Inl e, h2)
         | Inr paths \<Rightarrow>
             (let nodes_reachable = set paths;
                  subscribers_reachable = subscribers \<inter> nodes_reachable
              in case heuristic (objs h2 t) of
                   None \<Rightarrow> (Inl KeyError, h2)
                 | Some name \<Rightarrow>
                     reach_loop failed_nodes failed_links server subscribers ts
                       (all_reachable \<union> subscribers_reachable) h2))"

text \<open>
  \<open>float(len(all_subscribers_reachable)) / len(subscribers)\<close>. The model returns the exact
  quotient; the float the code returns is that quotient rounded to the nearest double, and
  rounding keeps both the order of two quotients and the value \<open>0\<close>.
\<close>

definition get_reachability ::
  "'n list \<Rightarrow> ('n \<times> 'n) list \<Rightarrow> 'n \<Rightarrow> 'n set \<Rightarrow> nat list \<Rightarrow> 'n heap
     \<Rightarrow> (error + rat) \<times> 'n heap" where
  "get_reachability failed_nodes failed_links server subscribers topologies h =
     (case reach_loop failed_nodes failed_links server subscribers topologies {} h of
        (Inl e, h') \<Rightarrow> (Inl e, h')
      | (Inr all_reachable, h') \<Rightarrow>
          if card subscribers = 0 then (Inl ZeroDivisionError, h')
          else (Inr (of_nat (card all_reachable) / of_nat (card subscribers)), h'))"

section \<open>One trial\<close>

text \<open>
  The fields of \<open>SmartCampusNetworkxExperiment\<close> that the trial code reads. \<open>topo\<close> is the
  address of \<open>self.topo.topo\<close>, the graph of the canonical topology.
\<close>

record campus_experiment =
  nruns :: int
  ntrees :: int
  nsubscribers :: int
  mcast_heuristic :: string
  topo :: nat

text \<open>
  A value of a result dictionary: a reachability (a float) or the run number.
\<close>

datatype jval = JFloat rat | JInt nat

type_synonym result = "string \<rightharpoonup> jval"

text \<open>
  \<open>run_experiment\<close>. \<open>self.topo.topo.copy()\<close> makes a new graph object, at the first unused
  address; \<open>trees[0]\<close> raises \<open>IndexError\<close> on an empty list.
\<close>

definition run_experiment ::
  "campus_experiment \<Rightarrow> 'n list \<Rightarrow> ('n \<times> 'n) list \<Rightarrow> 'n \<Rightarrow> 'n list \<Rightarrow> nat list \<Rightarrow> 'n heap
     \<Rightarrow> (error + result) \<times> 'n heap" where
  "run_experiment self failed_nodes failed_links server subscribers trees h =
     (let subscribers = set subscribers;
          result = Map.empty;
          topo_copy = top h;
          h = h\<lparr>objs := (objs h)(topo_copy := objs h (topo self)), top := Suc (top h)\<rparr>;
          h = h\<lparr>objs := (objs h)(topo_copy := (objs h topo_copy)\<lparr>heuristic := Some ''oracle''\<rparr>)\<rparr>;
          topos_to_check = [topo_copy]
      in case get_reachability failed_nodes failed_links server subscribers topos_to_check h of
           (Inl e, h) \<Rightarrow> (Inl e, h)
         | (Inr res, h) \<Rightarrow>
             (case heuristic (objs h topo_copy) of
                None \<Rightarrow> (Inl KeyError, h)
              | Some oracle \<Rightarrow>
                  (let result = result(oracle \<mapsto> JFloat res)
                   in case get_reachability failed_nodes failed_links server subscribers trees h of
                        (Inl e, h) \<Rightarrow> (Inl e, h)
                      | (Inr res, h) \<Rightarrow>
                          (case trees of
                             [] \<Rightarrow> (Inl IndexError, h)
                           | t # _ \<Rightarrow>
                               (case heuristic (objs h t) of
                                  None \<Rightarrow> (Inl KeyError, h)
                                | Some heuristic_name \<Rightarrow>
                                    (Inr (result(heuristic_name \<mapsto> JFloat res)), h))))))"

section \<open>The experiment driver\<close>

text \<open>
  The collaborators of the driver whose code is not part of the modelled files are parameters:
  the topology's \<open>get_hosts\<close>, \<open>get_servers\<close> and \<open>get_redundant_multicast_trees\<close> (which
  makes new tree objects in the heap), the failure model's \<open>apply_failure_model\<close> with its own
  random state \<open>'f\<close>, and what \<open>random.Random.sample\<close> and \<open>choice\<close> return from the state
  \<open>'r\<close> of \<open>self.random\<close> when they do not raise.
\<close>

record ('n, 'r, 'f) env =
  get_hosts :: "'n heap \<Rightarrow> 'n list"
  get_servers :: "'n heap \<Rightarrow> 'n list"
  get_redundant_multicast_trees ::
    "'n \<Rightarrow> 'n list \<Rightarrow> int \<Rightarrow> string \<Rightarrow> 'n heap \<Rightarrow> nat list \<times> 'n heap"
  failure_model :: "'f \<Rightarrow> 'n heap \<Rightarrow> ('n list \<times> ('n \<times> 'n) list) \<times> 'f"
  sample :: "'r \<Rightarrow> 'n list \<Rightarrow> nat \<Rightarrow> 'n list \<times> 'r"
  choice :: "'r \<Rightarrow> 'n list \<Rightarrow> 'n \<times> 'r"

text \<open>
  What a run changes: the state of \<open>self.random\<close>, the state of the failure model, the heap,
  the list \<open>self.results['results']\<close>, and the content of the output file (\<open>None\<close> while
  nothing has been written).
\<close>

record ('n, 'r, 'f) world =
  random :: 'r
  fm_state :: 'f
  heap :: "'n heap"
  results :: "result list"
  output_file :: "result list option"

text \<open>
  \<open>random.sample(population, k)\<close> raises \<open>ValueError\<close> unless \<open>0 <= k <= len(population)\<close>.
\<close>

definition choose_subscribers ::
  "('n, 'r, 'f) env \<Rightarrow> campus_experiment \<Rightarrow> ('n, 'r, 'f) world \<Rightarrow> (error + 'n list) \<times> ('n, 'r, 'f) world" where
  "choose_subscribers E self w =
     (let hosts = get_hosts E (heap w)
      in if \<not> (0 \<le> nsubscribers self \<and> nsubscribers self \<le> int (length hosts))
         then (Inl ValueError, w)
         else (let (subs, r) = sample E (random w) hosts (nat (nsubscribers self))
               in (Inr subs, w\<lparr>random := r\<rparr>)))"

text \<open>
  \<open>random.choice(seq)\<close> raises \<open>IndexError\<close> on an empty sequence.
\<close>

definition choose_server ::
  "('n, 'r, 'f) env \<Rightarrow> campus_experiment \<Rightarrow> ('n, 'r, 'f) world \<Rightarrow> (error + 'n) \<times> ('n, 'r, 'f) world" where
  "choose_server E self w =
     (let servers = get_servers E (heap w)
      in if servers = [] then (Inl IndexError, w)
         else (let (server, r) = choice E (random w) servers
               in (Inr server, w\<lparr>random := r\<rparr>)))"

definition apply_failure_model ::
  "('n, 'r, 'f) env \<Rightarrow> campus_experiment \<Rightarrow> ('n, 'r, 'f) world
     \<Rightarrow> ('n list \<times> ('n \<times> 'n) list) \<times> ('n, 'r, 'f) world" where
  "apply_failure_model E self w =
     (let (failed, f) = failure_model E (fm_state w) (heap w)
      in (failed, w\<lparr>fm_state := f\<rparr>))"

text \<open>
  \<open>build_mcast_trees\<close>: ask the topology for the trees, then set \<open>graph['heuristic']\<close> of each
  to the configured heuristic name.
\<close>

definition build_mcast_trees ::
  "('n, 'r, 'f) env \<Rightarrow> campus_experiment \<Rightarrow> 'n \<Rightarrow> 'n list \<Rightarrow> ('n, 'r, 'f) world
     \<Rightarrow> nat list \<times> ('n, 'r, 'f) world" where
  "build_mcast_trees E self source subscribers w =
     (let (trees, h) = get_redundant_multicast_trees E source subscribers (ntrees self)
                         (mcast_heuristic self) (heap w);
          h = fold (\<lambda>tree h. h\<lparr>objs := (objs h)
                      (tree := (objs h tree)\<lparr>heuristic := Some (mcast_heuristic self)\<rparr>)\<rparr>) trees h
      in (trees, w\<lparr>heap := h\<rparr>))"

definition record_result :: "result \<Rightarrow> ('n, 'r, 'f) world \<Rightarrow> ('n, 'r, 'f) world" where
  "record_result result w = w\<lparr>results := results w @ [result]\<rparr>"

definition output_results :: "('n, 'r, 'f) world \<Rightarrow> ('n, 'r, 'f) world" where
  "output_results w = w\<lparr>output_file := Some (results w)\<rparr>"

text \<open>
  The body of the loop of \<open>run_all_experiments\<close> for run number \<open>r\<close>. Nothing catches an
  exception: it leaves the loop and \<open>run_all_experiments\<close>.
\<close>

definition run_trial ::
  "('n, 'r, 'f) env \<Rightarrow> campus_experiment \<Rightarrow> nat \<Rightarrow> ('n, 'r, 'f) world \<Rightarrow> (error + unit) \<times> ('n, 'r, 'f) world" where
  "run_trial E self r w =
     (case choose_subscribers E self w of
        (Inl e, w) \<Rightarrow> (Inl e, w)
      | (Inr subs, w) \<Rightarrow>
          (case choose_server E self w of
             (Inl e, w) \<Rightarrow> (Inl e, w)
           | (Inr server, w) \<Rightarrow>
               (let ((failed_nodes, failed_links), w) = apply_failure_model E self w;
                    (trees, w) = build_mcast_trees E self server subs w
                in case run_experiment self failed_nodes failed_links server subs trees (heap w) of
                     (Inl e, h) \<Rightarrow> (Inl e, w\<lparr>heap := h\<rparr>)
                   | (Inr result, h) \<Rightarrow>
                       (let result = result(''run'' \<mapsto> JInt r)
                        in (Inr (), record_result result (w\<lparr>heap := h\<rparr>))))))"

fun run_trials ::
  "('n, 'r, 'f) env \<Rightarrow> campus_experiment \<Rightarrow> nat list \<Rightarrow> ('n, 'r, 'f) world \<Rightarrow> (error + unit) \<times> ('n, 'r, 'f) world" where
  "run_trials E self [] w = (Inr (), w)"
| "run_trials E self (r # rs) w =
     (case run_trial E self r w of
        (Inl e, w) \<Rightarrow> (Inl e, w)
      | (Inr u, w) \<Rightarrow> run_trials E self rs w)"

text \<open>
  \<open>run_all_experiments\<close>: \<open>for r in range(self.nruns)\<close>, then \<open>self.output_results()\<close>.
\<close>

definition run_all_experiments ::
  "('n, 'r, 'f) env \<Rightarrow> campus_experiment \<Rightarrow> ('n, 'r, 'f) world \<Rightarrow> (error + unit) \<times> ('n, 'r, 'f) world" where
  "run_all_experiments E self w =
     (case run_trials E self [0 ..< nat (nruns self)] w of
        (Inl e, w) \<Rightarrow> (Inl e, w)
      | (Inr u, w) \<Rightarrow> (Inr (), output_results w))"

section \<open>Setting the experiment up\<close>

text \<open>
  The arguments of \<open>SmartCampusNetworkxExperiment.__init__\<close> that decide what it builds or
  whether it raises: \<open>failure_model\<close> is the failure model handed in, if any, and \<open>kwargs\<close>
  are the names of the extra keyword arguments. \<open>debug\<close>, \<open>output_filename\<close> and
  \<open>rand_seed\<close> set up logging, name the file and seed the global generator; no modelled
  code reads them back.
\<close>

record 'f init_args =
  arg_nruns :: int
  arg_ntrees :: int
  arg_mcast_heuristic :: string
  arg_nsubscribers :: int
  arg_failure_model :: "'f option"
  arg_topo :: "string list"
  arg_choice_rand_seed :: "int option"
  arg_kwargs :: "string list"

text \<open>
  What the constructor calls outside the modelled files: \<open>random.Random(seed)\<close>, the default
  \<open>SmartCampusFailureModel()\<close>, and \<open>NetworkxSdnTopology(*topo[1:])\<close>, which builds the
  graph of the topology (here: a heap that holds it, and its address) or raises.
\<close>

record ('n, 'r, 'f) factory =
  new_random :: "int option \<Rightarrow> 'r"
  default_failure_model :: 'f
  new_topology :: "string list \<Rightarrow> error + ('n heap \<times> nat)"

text \<open>
  \<open>__init__\<close>. It stores its arguments, makes the generator, the failure model and the
  topology, and starts with an empty results list. \<open>topo[0]\<close> raises \<open>IndexError\<close> on an
  empty list; a type other than \<open>networkx\<close> raises \<open>NotImplementedError\<close>;
  \<open>kwargs['failure_rand_seed']\<close> raises \<open>KeyError\<close> when that keyword was not given, and
  the handler around it only catches \<open>IndexError\<close>. Neither \<open>nsubscribers\<close> nor the hosts
  and servers of the topology are looked at.
\<close>

definition init ::
  "('n, 'r, 'f) factory \<Rightarrow> 'f init_args \<Rightarrow> error + (campus_experiment \<times> ('n, 'r, 'f) world)" where
  "init S a =
     (let rnd = new_random S (arg_choice_rand_seed a);
          fm = (case arg_failure_model a of None \<Rightarrow> default_failure_model S | Some f \<Rightarrow> f)
      in case arg_topo a of
           [] \<Rightarrow> Inl IndexError
         | kind # params \<Rightarrow>
             if kind = ''networkx''
             then (case new_topology S params of
                     Inl e \<Rightarrow> Inl e
                   | Inr (h, t) \<Rightarrow>
                       if ''failure_rand_seed'' \<in> set (arg_kwargs a)
                       then Inr (\<lparr>nruns = arg_nruns a, ntrees = arg_ntrees a,
                                  nsubscribers = arg_nsubscribers a,
                                  mcast_heuristic = arg_mcast_heuristic a, topo = t\<rparr>,
                                 \<lparr>random = rnd, fm_state = fm, heap = h, results = [],
                                  output_file = None\<rparr>)
                       else Inl KeyError)
             else Inl NotImplementedError)"

section \<open>Reachability, as the specification words it\<close>

text \<open>
  The links of a graph: the pairs \<open>(u, v)\<close> with \<open>u\<close> a node and \<open>v\<close> one of its neighbours.
\<close>

definition links :: "'n graph \<Rightarrow> ('n \<times> 'n) set" where
  "links G = {(u, v). u \<in> set (nodes G) \<and> v \<in> set (adj G u)}"

text \<open>
  The links that survive a failure instance: both ends are nodes that did not fail, and the link
  is not a failed link, in either direction.
\<close>

definition surviving_links :: "'n graph \<Rightarrow> 'n list \<Rightarrow> ('n \<times> 'n) list \<Rightarrow> ('n \<times> 'n) set" where
  "surviving_links G failed_nodes failed_links =
     {(u, v). (u, v) \<in> links G \<and> u \<notin> set failed_nodes \<and> v \<notin> set failed_nodes \<and>
              (u, v) \<notin> set failed_links \<and> (v, u) \<notin> set failed_links}"

text \<open>
  The nodes reachable from the server in a graph after the failed links and the failed nodes
  have been removed: those joined to it by a path of surviving links.
\<close>

definition reachable_after :: "'n graph \<Rightarrow> 'n list \<Rightarrow> ('n \<times> 'n) list \<Rightarrow> 'n \<Rightarrow> 'n set" where
  "reachable_after G failed_nodes failed_links server =
     {v. (server, v) \<in> (surviving_links G failed_nodes failed_links)\<^sup>*}"

text \<open>
  The size of the union, over the candidate graphs, of the subscribers reachable in that graph,
  divided by the number of subscribers.
\<close>

definition reachability_fraction ::
  "'n graph list \<Rightarrow> 'n list \<Rightarrow> ('n \<times> 'n) list \<Rightarrow> 'n \<Rightarrow> 'n set \<Rightarrow> rat" where
  "reachability_fraction Gs failed_nodes failed_links server subscribers =
     of_nat (card (\<Union>G \<in> set Gs. subscribers \<inter> reachable_after G failed_nodes failed_links server))
       / of_nat (card subscribers)"

text \<open>
  A tree is a subgraph of the topology: its nodes are nodes of the topology and its links are
  links of the topology.
\<close>

definition subgraph :: "'n graph \<Rightarrow> 'n graph \<Rightarrow> bool" where
  "subgraph T G = (set (nodes T) \<subseteq> set (nodes G) \<and>
     (\<forall>u \<in> set (nodes T). set (adj T u) \<subseteq> set (adj G u)))"

section \<open>Auxiliary notions for the proofs\<close>

text \<open>
  What the two removals of \<open>get_reachability\<close> make of a graph, whether an edge is absent from
  a graph, and what one round of the loop of \<open>get_reachability\<close> finds in a graph: the set of
  nodes reached, or \<open>None\<close> when the round raises.
\<close>

definition after_failures :: "'n list \<Rightarrow> ('n \<times> 'n) list \<Rightarrow> 'n graph \<Rightarrow> 'n graph" where
  "after_failures failed_nodes failed_links G =
     remove_nodes_from failed_nodes (remove_edges_from failed_links G)"

definition absent :: "'n \<times> 'n \<Rightarrow> 'n graph \<Rightarrow> bool" where
  "absent e G = (fst e \<notin> set (nodes G) \<or> snd e \<notin> set (adj G (fst e)))"

definition graph_reach :: "'n list \<Rightarrow> ('n \<times> 'n) list \<Rightarrow> 'n \<Rightarrow> 'n graph \<Rightarrow> 'n set option" where
  "graph_reach fn fl s G =
     (case single_source_shortest_path (after_failures fn fl G) s of
        Inl e \<Rightarrow> None
      | Inr paths \<Rightarrow>
          (case heuristic (after_failures fn fl G) of None \<Rightarrow> None | Some name \<Rightarrow> Some (set paths)))"

text \<open>
  The heap once \<open>run_experiment\<close> has made its copy of the topology and tagged it \<open>oracle\<close>.
\<close>

definition with_copy :: "campus_experiment \<Rightarrow> 'n heap \<Rightarrow> 'n heap" where
  "with_copy self h =
     h\<lparr>objs := (objs h)(top h := (objs h (topo self))\<lparr>heuristic := Some ''oracle''\<rparr>),
       top := Suc (top h)\<rparr>"

section \<open>Example: the path of four nodes\<close>

text \<open>
  The path \<open>1 - 2 - 3 - 4\<close> as canonical topology at address \<open>0\<close>, without a heuristic
  attribute, and two trees tagged \<open>closure\<close>: the same path at address \<open>1\<close> and its part
  \<open>1 - 2\<close> at address \<open>2\<close>.
\<close>

definition path4 :: "nat graph" where
  "path4 = \<lparr>nodes = [1, 2, 3, 4],
            adj = (\<lambda>n. [])(1 := [2], 2 := [1, 3], 3 := [2, 4], 4 := [3]),
            heuristic = None\<rparr>"

definition path2 :: "nat graph" where
  "path2 = \<lparr>nodes = [1, 2], adj = (\<lambda>n. [])(1 := [2], 2 := [1]), heuristic = Some ''closure''\<rparr>"

definition path4_heap :: "nat heap" where
  "path4_heap = \<lparr>objs = (\<lambda>a. path4)(1 := path4\<lparr>heuristic := Some ''closure''\<rparr>, 2 := path2),
                  top = 3\<rparr>"

definition path4_self :: campus_experiment where
  "path4_self = \<lparr>nruns = 1, ntrees = 1, nsubscribers = 2, mcast_heuristic = ''closure'', topo = 0\<rparr>"

lemmas path4_eval =
  path4_def path2_def path4_heap_def path4_self_def get_reachability_def remove_edges_from_def
  remove_edge_def remove_nodes_from_def remove_node_def single_source_shortest_path_def
  bfs.simps expand_def visit_def reach_loop.simps(2)

text \<open>
  Collaborators for the example: hosts \<open>2\<close> and \<open>4\<close>, server \<open>1\<close>, a failure model that
  always fails the link \<open>(2, 3)\<close>, a sampler that takes the first hosts, and a topology that
  returns the two trees of the heap; \<open>no_trees_env\<close> is the same with a topology that returns
  no tree at all.
\<close>

definition path4_env :: "(nat, unit, unit) env" where
  "path4_env =
     \<lparr>get_hosts = (\<lambda>h. [2, 4]),
      get_servers = (\<lambda>h. [1]),
      get_redundant_multicast_trees = (\<lambda>source subscribers k name h. ([1, 2], h)),
      failure_model = (\<lambda>f h. (([], [(2, 3)]), f)),
      sample = (\<lambda>r hosts k. (take k hosts, r)),
      choice = (\<lambda>r servers. (hd servers, r))\<rparr>"

definition no_trees_env :: "(nat, unit, unit) env" where
  "no_trees_env =
     path4_env\<lparr>get_redundant_multicast_trees := (\<lambda>source subscribers k name h. ([], h))\<rparr>"

definition path4_world :: "(nat, unit, unit) world" where
  "path4_world = \<lparr>random = (), fm_state = (), heap = path4_heap, results = [], output_file = None\<rparr>"

text \<open>
  Setting the example up: the topology is the path, in the heap of the example, and the
  arguments ask for \<open>k\<close> subscribers in \<open>n\<close> runs. \<open>path2_env\<close> is \<open>path4_env\<close> with a
  topology that returns the short tree only.
\<close>

definition path4_factory :: "(nat, unit, unit) factory" where
  "path4_factory =
     \<lparr>new_random = (\<lambda>seed. ()), default_failure_model = (),
      new_topology = (\<lambda>params. Inr (path4_heap, 0))\<rparr>"

definition path4_args :: "int \<Rightarrow> int \<Rightarrow> unit init_args" where
  "path4_args n k =
     \<lparr>arg_nruns = n, arg_ntrees = 1, arg_mcast_heuristic = ''closure'', arg_nsubscribers = k,
      arg_failure_model = None, arg_topo = [''networkx''], arg_choice_rand_seed = None,
      arg_kwargs = [''failure_rand_seed'']\<rparr>"

definition path2_env :: "(nat, unit, unit) env" where
  "path2_env =
     path4_env\<lparr>get_redundant_multicast_trees := (\<lambda>source subscribers k name h. ([2], h))\<rparr>"

lemmas driver_eval =
  run_all_experiments_def run_trial_def choose_subscribers_def choose_server_def
  apply_failure_model_def build_mcast_trees_def record_result_def output_results_def
  run_experiment_def path4_env_def no_trees_env_def path2_env_def path4_world_def Let_def

section \<open>Removing links and nodes\<close>

lemma nodes_remove_edge [simp]: "nodes (remove_edge e G) = nodes G"
  by (simp add: remove_edge_def Let_def)

lemma heuristic_remove_edge [simp]: "heuristic (remove_edge e G) = heuristic G"
  by (simp add: remove_edge_def Let_def)

lemma adj_remove_edge:
  "adj (remove_edge (u, v) G) x =
     (if u \<in> set (nodes G) \<and> v \<in> set (adj G u)
      then (if x = u then removeAll v (adj G u)
            else if x = v then removeAll u (adj G v) else adj G x)
      else adj G x)"
  by (simp add: remove_edge_def Let_def)

lemma adj_remove_edge_subset: "set (adj (remove_edge e G) x) \<subseteq> set (adj G x)"
  by (cases e) (simp add: adj_remove_edge)

lemma adj_remove_edge_gone:
  "u \<notin> set (nodes (remove_edge (u, v) G)) \<or> v \<notin> set (adj (remove_edge (u, v) G) u)"
  by (simp add: adj_remove_edge)

lemma links_sym: "wf_graph G \<Longrightarrow> (a, b) \<in> links G \<Longrightarrow> (b, a) \<in> links G"
  unfolding links_def wf_graph_def by blast

lemma wf_graph_links: "wf_graph G \<longleftrightarrow> (\<forall>a b. (a, b) \<in> links G \<longrightarrow> (b, a) \<in> links G)"
  unfolding links_def wf_graph_def by blast

lemma in_links_remove_edge:
  assumes "wf_graph G"
  shows "(x, y) \<in> links (remove_edge (u, v) G) \<longleftrightarrow>
         (x, y) \<in> links G \<and> (x, y) \<noteq> (u, v) \<and> (x, y) \<noteq> (v, u)"
proof (cases "(u, v) \<in> links G")
  case True
  then have vu: "(v, u) \<in> links G" using assms links_sym by fast
  from True vu have c: "u \<in> set (nodes G)" "v \<in> set (adj G u)"
    "v \<in> set (nodes G)" "u \<in> set (adj G v)"
    by (simp_all add: links_def)
  show ?thesis
    using c by (simp add: links_def adj_remove_edge) blast
next
  case False
  then have nvu: "(v, u) \<notin> links G" using assms links_sym by fast
  from False have "remove_edge (u, v) G = G"
    by (auto simp: remove_edge_def links_def)
  then show ?thesis using False nvu by auto
qed

lemma links_remove_edge:
  assumes "wf_graph G"
  shows "links (remove_edge (u, v) G) = links G - {(u, v), (v, u)}"
  using in_links_remove_edge [OF assms] by auto

lemma wf_remove_edge:
  assumes "wf_graph G"
  shows "wf_graph (remove_edge e G)"
proof -
  obtain u v where e: "e = (u, v)" by (cases e)
  have "(b, a) \<in> links (remove_edge (u, v) G)" if ab: "(a, b) \<in> links (remove_edge (u, v) G)" for a b
  proof -
    from ab have 1: "(a, b) \<in> links G" "(a, b) \<noteq> (u, v)" "(a, b) \<noteq> (v, u)"
      by (simp_all add: in_links_remove_edge [OF assms])
    from 1(1) have "(b, a) \<in> links G" by (rule links_sym [OF assms])
    moreover from 1(2,3) have "(b, a) \<noteq> (u, v)" "(b, a) \<noteq> (v, u)" by auto
    ultimately show ?thesis by (simp add: in_links_remove_edge [OF assms])
  qed
  then show ?thesis unfolding wf_graph_links e by blast
qed

lemma remove_edges_from_props:
  "wf_graph G \<Longrightarrow>
     wf_graph (remove_edges_from fl G) \<and>
     nodes (remove_edges_from fl G) = nodes G \<and>
     heuristic (remove_edges_from fl G) = heuristic G \<and>
     links (remove_edges_from fl G) = links G - (set fl \<union> (set fl)\<inverse>)"
proof (induction fl arbitrary: G)
  case Nil
  then show ?case by (simp add: remove_edges_from_def)
next
  case (Cons e fl)
  obtain u v where e: "e = (u, v)" by (cases e)
  have wf': "wf_graph (remove_edge e G)" using Cons.prems by (rule wf_remove_edge)
  have step: "remove_edges_from (e # fl) G = remove_edges_from fl (remove_edge e G)"
    by (simp add: remove_edges_from_def)
  show ?case
    unfolding step
    using Cons.IH [OF wf'] links_remove_edge [OF Cons.prems, of u v]
    by (auto simp: e)
qed

lemma fold_del_apply:
  "fold (\<lambda>u a. a(u := removeAll n (a u))) us a x =
     (if x \<in> set us then removeAll n (a x) else a x)"
  by (induction us arbitrary: a) auto

lemma nodes_remove_node: "nodes (remove_node n G) = removeAll n (nodes G)"
  by (simp add: remove_node_def)

lemma heuristic_remove_node [simp]: "heuristic (remove_node n G) = heuristic G"
  by (simp add: remove_node_def)

lemma adj_remove_node:
  "adj (remove_node n G) x =
     (if n \<in> set (nodes G) \<and> x \<in> set (adj G n) then removeAll n (adj G x) else adj G x)"
  by (simp add: remove_node_def fold_del_apply)

lemma adj_remove_node_subset: "set (adj (remove_node n G) x) \<subseteq> set (adj G x)"
  by (simp add: adj_remove_node)

lemma in_links_remove_node:
  assumes "wf_graph G"
  shows "(x, y) \<in> links (remove_node n G) \<longleftrightarrow> (x, y) \<in> links G \<and> x \<noteq> n \<and> y \<noteq> n"
proof (cases "x \<in> set (nodes G) \<and> x \<noteq> n")
  case False
  then show ?thesis by (auto simp: links_def nodes_remove_node)
next
  case True
  show ?thesis
  proof (cases "y = n")
    case yn: True
    show ?thesis
    proof (cases "(x, n) \<in> links G")
      case True
      then have "(n, x) \<in> links G" by (rule links_sym [OF assms])
      then show ?thesis using yn by (simp add: links_def nodes_remove_node adj_remove_node)
    next
      case False
      then show ?thesis using yn adj_remove_node_subset [of n G x]
        by (auto simp: links_def nodes_remove_node)
    qed
  next
    case False
    then show ?thesis using True by (simp add: links_def nodes_remove_node adj_remove_node)
  qed
qed

lemma wf_remove_node:
  assumes "wf_graph G"
  shows "wf_graph (remove_node n G)"
proof -
  have "(b, a) \<in> links (remove_node n G)" if ab: "(a, b) \<in> links (remove_node n G)" for a b
  proof -
    from ab have 1: "(a, b) \<in> links G" "a \<noteq> n" "b \<noteq> n"
      by (simp_all add: in_links_remove_node [OF assms])
    from 1(1) have "(b, a) \<in> links G" by (rule links_sym [OF assms])
    with 1(2,3) show ?thesis by (simp add: in_links_remove_node [OF assms])
  qed
  then show ?thesis unfolding wf_graph_links by blast
qed

lemma remove_nodes_from_props:
  "wf_graph G \<Longrightarrow>
     wf_graph (remove_nodes_from ns G) \<and>
     set (nodes (remove_nodes_from ns G)) = set (nodes G) - set ns \<and>
     heuristic (remove_nodes_from ns G) = heuristic G \<and>
     links (remove_nodes_from ns G) = {(u, v). (u, v) \<in> links G \<and> u \<notin> set ns \<and> v \<notin> set ns}"
proof (induction ns arbitrary: G)
  case Nil
  then show ?case by (simp add: remove_nodes_from_def)
next
  case (Cons n ns)
  have wf': "wf_graph (remove_node n G)" using Cons.prems by (rule wf_remove_node)
  have step: "remove_nodes_from (n # ns) G = remove_nodes_from ns (remove_node n G)"
    by (simp add: remove_nodes_from_def)
  have l: "links (remove_node n G) = {(u, v). (u, v) \<in> links G \<and> u \<noteq> n \<and> v \<noteq> n}"
    using in_links_remove_node [OF Cons.prems] by auto
  show ?case
    unfolding step
    using Cons.IH [OF wf'] by (auto simp: l nodes_remove_node)
qed

section \<open>Removing the failures twice\<close>

lemma remove_edge_absent: "absent e G \<Longrightarrow> remove_edge e G = G"
  by (auto simp: absent_def remove_edge_def)

lemma absent_remove_edge_self: "absent e (remove_edge e G)"
  using adj_remove_edge_gone [of "fst e" "snd e" G] by (simp add: absent_def)

lemma absent_remove_edge: "absent e G \<Longrightarrow> absent e (remove_edge e' G)"
  using adj_remove_edge_subset [of e' G "fst e"] by (auto simp: absent_def)

lemma absent_remove_node: "absent e G \<Longrightarrow> absent e (remove_node n G)"
  using adj_remove_node_subset [of n G "fst e"] by (auto simp: absent_def nodes_remove_node)

lemma absent_remove_edges_from: "absent e G \<Longrightarrow> absent e (remove_edges_from fl G)"
  by (induction fl arbitrary: G) (simp_all add: remove_edges_from_def absent_remove_edge)

lemma absent_remove_nodes_from: "absent e G \<Longrightarrow> absent e (remove_nodes_from ns G)"
  by (induction ns arbitrary: G) (simp_all add: remove_nodes_from_def absent_remove_node)

lemma remove_edges_from_all_absent: "\<forall>e \<in> set fl. absent e (remove_edges_from fl G)"
proof (induction fl arbitrary: G)
  case Nil
  then show ?case by simp
next
  case (Cons e fl)
  have step: "remove_edges_from (e # fl) G = remove_edges_from fl (remove_edge e G)"
    by (simp add: remove_edges_from_def)
  have "absent e (remove_edges_from fl (remove_edge e G))"
    by (rule absent_remove_edges_from) (rule absent_remove_edge_self)
  with Cons.IH [of "remove_edge e G"] show ?case by (simp add: step)
qed

lemma remove_edges_from_id: "\<forall>e \<in> set fl. absent e G \<Longrightarrow> remove_edges_from fl G = G"
  by (induction fl) (simp_all add: remove_edges_from_def remove_edge_absent)

lemma set_nodes_remove_nodes_from:
  "set (nodes (remove_nodes_from ns G)) = set (nodes G) - set ns"
  by (induction ns arbitrary: G) (auto simp: remove_nodes_from_def nodes_remove_node)

lemma remove_nodes_from_id: "set ns \<inter> set (nodes G) = {} \<Longrightarrow> remove_nodes_from ns G = G"
  by (induction ns) (auto simp: remove_nodes_from_def remove_node_def)

lemma after_failures_idem:
  "after_failures fn fl (after_failures fn fl G) = after_failures fn fl G"
proof -
  let ?G = "after_failures fn fl G"
  have "\<forall>e \<in> set fl. absent e ?G"
    unfolding after_failures_def
    using remove_edges_from_all_absent [of fl G] absent_remove_nodes_from by blast
  then have 1: "remove_edges_from fl ?G = ?G" by (rule remove_edges_from_id)
  have "set fn \<inter> set (nodes ?G) = {}"
    by (auto simp: after_failures_def set_nodes_remove_nodes_from)
  then have 2: "remove_nodes_from fn ?G = ?G" by (rule remove_nodes_from_id)
  show ?thesis
    using 1 2 by (simp add: after_failures_def [of fn fl ?G])
qed

lemma after_failures_props:
  assumes "wf_graph G"
  shows "wf_graph (after_failures fn fl G)"
    and "set (nodes (after_failures fn fl G)) = set (nodes G) - set fn"
    and "heuristic (after_failures fn fl G) = heuristic G"
    and "links (after_failures fn fl G) = surviving_links G fn fl"
proof -
  note e = remove_edges_from_props [OF assms, of fl]
  from e have wf1: "wf_graph (remove_edges_from fl G)" by simp
  note n = remove_nodes_from_props [OF wf1, of fn]
  show "wf_graph (after_failures fn fl G)" using n by (simp add: after_failures_def)
  show "set (nodes (after_failures fn fl G)) = set (nodes G) - set fn"
    using n e by (simp add: after_failures_def)
  show "heuristic (after_failures fn fl G) = heuristic G"
    using n e by (simp add: after_failures_def)
  have "links (after_failures fn fl G) =
          {(u, v). (u, v) \<in> links G - (set fl \<union> (set fl)\<inverse>) \<and> u \<notin> set fn \<and> v \<notin> set fn}"
    using n e by (simp add: after_failures_def)
  then show "links (after_failures fn fl G) = surviving_links G fn fl"
    by (auto simp: surviving_links_def)
qed

section \<open>The breadth-first search computes reachability\<close>

lemma rtrancl_Image_absorb: "A \<subseteq> R\<^sup>* `` B \<Longrightarrow> R\<^sup>* `` A \<subseteq> R\<^sup>* `` B"
  by (blast intro: rtrancl_trans)

lemma bfs_error: "bfs G lv ps = Inl e \<Longrightarrow> e = KeyError"
proof (induction G lv ps rule: bfs.induct)
  case (1 G lv ps)
  then show ?case
    by (subst (asm) (2) bfs.simps) (auto split: if_splits)
qed

lemma bfs_closure:
  assumes "wf_graph G" and "set lv \<subseteq> set ps" and "set ps \<subseteq> set (nodes G)"
    and "\<forall>u \<in> set ps - set lv. set (adj G u) \<subseteq> set ps"
  shows "\<exists>qs. bfs G lv ps = Inr qs \<and> set qs = (links G)\<^sup>* `` set ps"
  using assms
proof (induction G lv ps rule: bfs.induct)
  case (1 G lv ps)
  show ?case
  proof (cases "lv = []")
    case True
    have "links G `` set ps \<subseteq> set ps"
      using "1.prems"(4) True by (auto simp: links_def)
    then have "(links G)\<^sup>* `` set ps = set ps"
      by (rule Image_closed_trancl)
    then show ?thesis using True by (simp add: bfs.simps)
  next
    case False
    let ?ps = "fst (expand G lv ps)"
    let ?nx = "snd (expand G lv ps)"
    have lvN: "set lv \<subseteq> set (nodes G)" using "1.prems"(2,3) by auto
    have adjN: "(\<Union>v \<in> set lv. set (adj G v)) \<subseteq> set (nodes G)"
      using lvN "1.prems"(1) by (auto simp: wf_graph_def)
    have a: "set ?nx \<subseteq> set ?ps" by (auto simp: expand_paths expand_next)
    have b: "set ?ps \<subseteq> set (nodes G)" using adjN "1.prems"(3) by (auto simp: expand_paths)
    have c: "\<forall>u \<in> set ?ps - set ?nx. set (adj G u) \<subseteq> set ?ps"
    proof
      fix u assume "u \<in> set ?ps - set ?nx"
      then have u: "u \<in> set ps" by (auto simp: expand_paths expand_next)
      show "set (adj G u) \<subseteq> set ?ps"
      proof (cases "u \<in> set lv")
        case True
        then show ?thesis by (auto simp: expand_paths)
      next
        case False
        with u "1.prems"(4) show ?thesis by (auto simp: expand_paths)
      qed
    qed
    from "1.IH" [OF False _ "1.prems"(1) a b c] lvN
    obtain qs where qs: "bfs G ?nx ?ps = Inr qs" "set qs = (links G)\<^sup>* `` set ?ps"
      by auto
    have "set ?ps \<subseteq> (links G)\<^sup>* `` set ps"
    proof
      fix w assume "w \<in> set ?ps"
      then consider "w \<in> set ps" | v where "v \<in> set lv" "w \<in> set (adj G v)"
        by (auto simp: expand_paths)
      then show "w \<in> (links G)\<^sup>* `` set ps"
      proof cases
        case 1
        then show ?thesis by auto
      next
        case 2
        then have "(v, w) \<in> links G" "v \<in> set ps" using lvN "1.prems"(2) by (auto simp: links_def)
        then show ?thesis by auto
      qed
    qed
    then have "(links G)\<^sup>* `` set ?ps \<subseteq> (links G)\<^sup>* `` set ps"
      by (rule rtrancl_Image_absorb)
    moreover have "(links G)\<^sup>* `` set ps \<subseteq> (links G)\<^sup>* `` set ?ps"
      by (rule Image_mono) (auto simp: expand_paths)
    ultimately have "(links G)\<^sup>* `` set ?ps = (links G)\<^sup>* `` set ps" by blast
    with qs show ?thesis using False lvN by (subst bfs.simps) simp
  qed
qed

lemma sssp_reach:
  assumes "wf_graph G" and "s \<in> set (nodes G)"
  shows "\<exists>qs. single_source_shortest_path G s = Inr qs \<and> set qs = {v. (s, v) \<in> (links G)\<^sup>*}"
proof -
  from bfs_closure [of G "[s]" "[s]"] assms
  obtain qs where "bfs G [s] [s] = Inr qs" "set qs = (links G)\<^sup>* `` set [s]" by auto
  then show ?thesis by (auto simp: single_source_shortest_path_def)
qed

lemma sssp_missing: "s \<notin> set (nodes G) \<Longrightarrow> single_source_shortest_path G s = Inl KeyError"
  by (simp add: single_source_shortest_path_def bfs.simps)

lemma sssp_error: "single_source_shortest_path G s = Inl e \<Longrightarrow> e = KeyError"
  unfolding single_source_shortest_path_def by (rule bfs_error)

section \<open>The loop of the evaluator\<close>

lemma graph_reach_idem: "graph_reach fn fl s (after_failures fn fl G) = graph_reach fn fl s G"
  unfolding graph_reach_def after_failures_idem ..

lemma reach_loop_step:
  "reach_loop fn fl s subs (t # ts) acc h =
     (let h2 = h\<lparr>objs := (objs h)(t := after_failures fn fl (objs h t))\<rparr>
      in case graph_reach fn fl s (objs h t) of
           None \<Rightarrow> (Inl KeyError, h2)
         | Some R \<Rightarrow> reach_loop fn fl s subs ts (acc \<union> subs \<inter> R) h2)"
proof (cases "single_source_shortest_path (after_failures fn fl (objs h t)) s")
  case (Inl e)
  then have "e = KeyError" by (rule sssp_error)
  with Inl show ?thesis
    by (simp add: graph_reach_def after_failures_def Let_def)
next
  case (Inr paths)
  then show ?thesis
    by (simp add: graph_reach_def after_failures_def Let_def split: option.splits)
qed

declare reach_loop.simps(2) [simp del]

lemma reach_loop_value:
  "fst (reach_loop fn fl s subs ts acc h) =
     (if \<forall>t \<in> set ts. graph_reach fn fl s (objs h t) \<noteq> None
      then Inr (acc \<union> (\<Union>t \<in> set ts. subs \<inter> the (graph_reach fn fl s (objs h t))))
      else Inl KeyError)"
proof (induction ts arbitrary: acc h)
  case Nil
  then show ?case by simp
next
  case (Cons t ts)
  let ?h2 = "h\<lparr>objs := (objs h)(t := after_failures fn fl (objs h t))\<rparr>"
  have same: "graph_reach fn fl s (objs ?h2 a) = graph_reach fn fl s (objs h a)" for a
    by (simp add: graph_reach_idem)
  show ?case
  proof (cases "graph_reach fn fl s (objs h t)")
    case None
    then show ?thesis by (simp add: reach_loop_step)
  next
    case (Some R)
    have "fst (reach_loop fn fl s subs (t # ts) acc h) =
            fst (reach_loop fn fl s subs ts (acc \<union> subs \<inter> R) ?h2)"
      using Some by (simp add: reach_loop_step)
    also have "\<dots> =
       (if \<forall>t \<in> set ts. graph_reach fn fl s (objs h t) \<noteq> None
        then Inr ((acc \<union> subs \<inter> R) \<union> (\<Union>t \<in> set ts. subs \<inter> the (graph_reach fn fl s (objs h t))))
        else Inl KeyError)"
      unfolding Cons.IH same ..
    finally show ?thesis using Some by (auto simp: Un_assoc)
  qed
qed

lemma reach_loop_frame:
  "top (snd (reach_loop fn fl s subs ts acc h)) = top h \<and>
   (a \<notin> set ts \<longrightarrow> objs (snd (reach_loop fn fl s subs ts acc h)) a = objs h a)"
proof (induction ts arbitrary: acc h)
  case Nil
  then show ?case by simp
next
  case (Cons t ts)
  show ?case
    by (cases "graph_reach fn fl s (objs h t)") (simp_all add: reach_loop_step Cons.IH)
qed

lemma graph_reach_wf:
  assumes "wf_graph G"
  shows "graph_reach fn fl s G =
           (if s \<in> set (nodes G) \<and> s \<notin> set fn \<and> heuristic G \<noteq> None
            then Some (reachable_after G fn fl s) else None)"
proof (cases "s \<in> set (nodes G) \<and> s \<notin> set fn")
  case False
  then have "s \<notin> set (nodes (after_failures fn fl G))"
    by (simp add: after_failures_props(2) [OF assms])
  then show ?thesis using False by (auto simp: graph_reach_def sssp_missing)
next
  case True
  then have "s \<in> set (nodes (after_failures fn fl G))"
    by (simp add: after_failures_props(2) [OF assms])
  from sssp_reach [OF after_failures_props(1) [OF assms] this]
  obtain qs where "single_source_shortest_path (after_failures fn fl G) s = Inr qs"
    "set qs = reachable_after G fn fl s"
    by (auto simp: after_failures_props(4) [OF assms] reachable_after_def)
  then show ?thesis
    using True by (auto simp: graph_reach_def after_failures_props(3) [OF assms])
qed

lemma get_reachability_value:
  "fst (get_reachability fn fl s subs ts h) =
     (if \<exists>t \<in> set ts. graph_reach fn fl s (objs h t) = None then Inl KeyError
      else if card subs = 0 then Inl ZeroDivisionError
      else Inr (of_nat (card (\<Union>t \<in> set ts. subs \<inter> the (graph_reach fn fl s (objs h t))))
                 / of_nat (card subs)))"
proof -
  obtain r h' where r: "reach_loop fn fl s subs ts {} h = (r, h')"
    by (cases "reach_loop fn fl s subs ts {} h")
  from reach_loop_value [of fn fl s subs ts "{}" h] r
  have v: "r = (if \<forall>t \<in> set ts. graph_reach fn fl s (objs h t) \<noteq> None
      then Inr (\<Union>t \<in> set ts. subs \<inter> the (graph_reach fn fl s (objs h t)))
      else Inl KeyError)" by simp
  show ?thesis
    unfolding get_reachability_def r v by (simp split: if_splits)
qed

lemma get_reachability_frame:
  "top (snd (get_reachability fn fl s subs ts h)) = top h \<and>
   (a \<notin> set ts \<longrightarrow> objs (snd (get_reachability fn fl s subs ts h)) a = objs h a)"
proof -
  obtain r h' where r: "reach_loop fn fl s subs ts {} h = (r, h')"
    by (cases "reach_loop fn fl s subs ts {} h")
  from reach_loop_frame [of fn fl s subs ts "{}" h a] r
  have "top h' = top h \<and> (a \<notin> set ts \<longrightarrow> objs h' a = objs h a)" by simp
  then show ?thesis
    unfolding get_reachability_def r by (simp split: sum.splits)
qed

section \<open>Claims about the reachability evaluator\<close>

text \<open>
  For a finite non-empty subscriber set and candidate graphs that each carry a heuristic tag and
  each keep the server as a node, \<open>get_reachability\<close> returns the union fraction: the size of
  the union, over the candidate graphs, of the subscribers reachable from the server in that
  graph after the removals, divided by the number of subscribers.
\<close>

lemma get_reachability_union_fraction:
  assumes "finite subscribers" and "subscribers \<noteq> {}"
    and "\<forall>t \<in> set topologies. wf_graph (objs h t) \<and> heuristic (objs h t) \<noteq> None \<and>
           server \<in> set (nodes (objs h t)) \<and> server \<notin> set failed_nodes"
  shows "fst (get_reachability failed_nodes failed_links server subscribers topologies h) =
           Inr (reachability_fraction (map (objs h) topologies) failed_nodes failed_links
                  server subscribers)"
proof -
  have g: "graph_reach failed_nodes failed_links server (objs h t) =
             Some (reachable_after (objs h t) failed_nodes failed_links server)"
    if "t \<in> set topologies" for t
    using that assms(3) by (simp add: graph_reach_wf)
  have c: "card subscribers \<noteq> 0" using assms(1,2) by simp
  have "(\<Union>t \<in> set topologies. subscribers \<inter>
            the (graph_reach failed_nodes failed_links server (objs h t))) =
        (\<Union>t \<in> set topologies. subscribers \<inter>
            reachable_after (objs h t) failed_nodes failed_links server)"
    using g by simp
  then show ?thesis
    using g c by (simp add: get_reachability_value reachability_fraction_def)
qed

lemma get_reachability_union_fraction_example:
  "fst (get_reachability [3] [] 1 {2, 4} [1, 2] path4_heap) =
     Inr (reachability_fraction (map (objs path4_heap) [1, 2]) [3] [] 1 {2, 4}) \<and>
   fst (get_reachability [3] [] 1 {2, 4} [1, 2] path4_heap) = Inr (1 / 2)"
proof -
  have f: "finite {2, 4 :: nat}" and n: "{2, 4 :: nat} \<noteq> {}" by simp_all
  have g: "\<forall>t \<in> set [1, 2]. wf_graph (objs path4_heap t) \<and> heuristic (objs path4_heap t) \<noteq> None \<and>
             (1::nat) \<in> set (nodes (objs path4_heap t)) \<and> (1::nat) \<notin> set [3]"
    by (simp add: path4_heap_def path4_def path2_def wf_graph_def)
  have "fst (get_reachability [3] [] 1 {2, 4} [1, 2] path4_heap) = Inr (1 / 2)"
    by (simp add: path4_eval)
  with get_reachability_union_fraction [OF f n g, of "[]"] show ?thesis by simp
qed

lemma reachable_after_failed_server:
  assumes "s \<in> set fn"
  shows "reachable_after G fn fl s = {s}"
proof -
  have "v = s" if "(s, v) \<in> (surviving_links G fn fl)\<^sup>*" for v
    using that
  proof (induction rule: rtrancl_induct)
    case base
    then show ?case by simp
  next
    case (step y z)
    with assms show ?case by (simp add: surviving_links_def)
  qed
  then show ?thesis by (auto simp: reachable_after_def)
qed

text \<open>
  C1. The claim asks for the union fraction for every sequence of candidate graphs. With the
  server among the failed nodes nothing is reachable from it in any candidate graph, so the
  fraction the claim asks for is \<open>0\<close>; on the two trees of the example
  \<open>get_reachability\<close> raises \<open>KeyError\<close> instead, because the search starts from a node
  that has been removed.
\<close>

theorem failed_server_no_union_fraction:
  "fst (get_reachability [1] [(2, 3)] 1 {2, 4} [2, 1] path4_heap) = Inl KeyError \<and>
   reachability_fraction (map (objs path4_heap) [2, 1]) [1] [(2, 3)] 1 {2, 4} = 0"
proof -
  have "fst (get_reachability [1] [(2, 3)] 1 {2, 4} [2, 1] path4_heap) = Inl KeyError"
    by (simp add: path4_eval)
  moreover have "reachability_fraction (map (objs path4_heap) [2, 1]) [1] [(2, 3)] 1 {2, 4} = 0"
    by (simp add: reachability_fraction_def reachable_after_failed_server)
  ultimately show ?thesis by simp
qed

text \<open>
  C3. With the server among the failed nodes, the claim asks for reachability \<open>0.0\<close> for the
  oracle and for the heuristic. On the path of four nodes with node \<open>1\<close> both server and
  failed, \<open>run_experiment\<close> raises \<open>KeyError\<close> in the oracle evaluation, and the evaluation
  of the trees alone raises \<open>KeyError\<close> as well.
\<close>

theorem failed_server_raises:
  "fst (run_experiment path4_self [1] [] 1 [2, 4] [1] path4_heap) = Inl KeyError \<and>
   fst (get_reachability [1] [] 1 {2, 4} [1, 2] path4_heap) = Inl KeyError"
  by (simp add: run_experiment_def path4_eval)

text \<open>
  C5. For every call to the reachability evaluator with an empty subscriber set, the evaluator
  raises an error instead of returning a fraction.
\<close>

theorem get_reachability_empty_subscribers_fails:
  "\<exists>e. fst (get_reachability failed_nodes failed_links server {} topologies h) = Inl e"
  by (simp add: get_reachability_value)

theorem get_reachability_empty_subscribers_fails_witness:
  "fst (get_reachability [] [] 1 {} [1] path4_heap) = Inl ZeroDivisionError"
proof -
  from get_reachability_empty_subscribers_fails [of "[]" "[]" "1::nat" "[1]" path4_heap]
  obtain e where e: "fst (get_reachability [] [] 1 {} [1] path4_heap) = Inl e" ..
  have "fst (get_reachability [] [] 1 {} [1] path4_heap) = Inl ZeroDivisionError"
    by (simp add: path4_eval)
  with e show ?thesis by simp
qed

text \<open>
  C9. For every permutation of the sequence of candidate graphs, \<open>get_reachability\<close> returns
  the same fraction: it returns a fraction \<open>x\<close> on one order exactly when it returns \<open>x\<close> on
  the other (and so it raises on one order exactly when it raises on the other).
\<close>

theorem get_reachability_permutation_invariant:
  assumes "mset topologies = mset topologies'"
  shows "fst (get_reachability failed_nodes failed_links server subscribers topologies h) = Inr x
           \<longleftrightarrow>
         fst (get_reachability failed_nodes failed_links server subscribers topologies' h) = Inr x"
proof -
  from assms have "set topologies = set topologies'" by (rule mset_eq_setD)
  then have "fst (get_reachability failed_nodes failed_links server subscribers topologies h) =
             fst (get_reachability failed_nodes failed_links server subscribers topologies' h)"
    by (simp add: get_reachability_value)
  then show ?thesis by simp
qed

theorem get_reachability_permutation_invariant_witness:
  "mset [1, 2] = mset [2, 1 :: nat] \<and>
   fst (get_reachability [] [(2, 3)] 1 {2, 4} [1, 2] path4_heap) = Inr (1 / 2) \<and>
   fst (get_reachability [] [(2, 3)] 1 {2, 4} [2, 1] path4_heap) = Inr (1 / 2)"
proof -
  have m: "mset [1, 2] = mset [2, 1 :: nat]" by simp
  have "fst (get_reachability [] [(2, 3)] 1 {2, 4} [1, 2] path4_heap) = Inr (1 / 2)"
    by (simp add: path4_eval)
  with m get_reachability_permutation_invariant
         [OF m, of "[]" "[(2, 3)]" "1::nat" "{2, 4}" path4_heap "1 / 2"]
  show ?thesis by simp
qed

section \<open>One trial: what it returns and what it changes\<close>

lemma heuristic_remove_edges_from [simp]: "heuristic (remove_edges_from fl G) = heuristic G"
  by (induction fl arbitrary: G) (simp_all add: remove_edges_from_def)

lemma heuristic_remove_nodes_from [simp]: "heuristic (remove_nodes_from ns G) = heuristic G"
  by (induction ns arbitrary: G) (simp_all add: remove_nodes_from_def)

lemma heuristic_after_failures [simp]: "heuristic (after_failures fn fl G) = heuristic G"
  by (simp add: after_failures_def)

lemma reach_loop_heuristic:
  "heuristic (objs (snd (reach_loop fn fl s subs ts acc h)) a) = heuristic (objs h a)"
proof (induction ts arbitrary: acc h)
  case Nil
  then show ?case by simp
next
  case (Cons t ts)
  show ?case
    by (cases "graph_reach fn fl s (objs h t)") (simp_all add: reach_loop_step Cons.IH)
qed

lemma get_reachability_heuristic:
  "heuristic (objs (snd (get_reachability fn fl s subs ts h)) a) = heuristic (objs h a)"
proof -
  obtain r h' where r: "reach_loop fn fl s subs ts {} h = (r, h')"
    by (cases "reach_loop fn fl s subs ts {} h")
  from reach_loop_heuristic [of fn fl s subs ts "{}" h a] r
  have "heuristic (objs h' a) = heuristic (objs h a)" by simp
  then show ?thesis
    unfolding get_reachability_def r by (simp split: sum.splits)
qed

lemma get_reachability_cong:
  "\<forall>t \<in> set ts. objs h t = objs h' t \<Longrightarrow>
     fst (get_reachability fn fl s subs ts h) = fst (get_reachability fn fl s subs ts h')"
  by (simp add: get_reachability_value)

lemma run_experiment_unfold:
  "run_experiment self fn fl s subscribers trees h =
     (case get_reachability fn fl s (set subscribers) [top h] (with_copy self h) of
        (Inl e, h1) \<Rightarrow> (Inl e, h1)
      | (Inr a, h1) \<Rightarrow>
          (case get_reachability fn fl s (set subscribers) trees h1 of
             (Inl e, h2) \<Rightarrow> (Inl e, h2)
           | (Inr b, h2) \<Rightarrow>
               (case trees of
                  [] \<Rightarrow> (Inl IndexError, h2)
                | t # ts \<Rightarrow>
                    (case heuristic (objs h2 t) of
                       None \<Rightarrow> (Inl KeyError, h2)
                     | Some name \<Rightarrow> (Inr [''oracle'' \<mapsto> JFloat a, name \<mapsto> JFloat b], h2)))))"
proof -
  let ?h0 = "with_copy self h"
  obtain r1 h1 where 1: "get_reachability fn fl s (set subscribers) [top h] ?h0 = (r1, h1)"
    by (cases "get_reachability fn fl s (set subscribers) [top h] ?h0")
  have "heuristic (objs h1 (top h)) = heuristic (objs ?h0 (top h))"
    using get_reachability_heuristic [of fn fl s "set subscribers" "[top h]" ?h0 "top h"] 1
    by simp
  then have tag: "heuristic (objs h1 (top h)) = Some ''oracle''"
    by (simp add: with_copy_def)
  have 0: "h\<lparr>objs := (objs h)(top h := objs h (topo self)), top := Suc (top h)\<rparr>
            \<lparr>objs := (objs (h\<lparr>objs := (objs h)(top h := objs h (topo self)), top := Suc (top h)\<rparr>))
               (top h := (objs (h\<lparr>objs := (objs h)(top h := objs h (topo self)), top := Suc (top h)\<rparr>) (top h))
                  \<lparr>heuristic := Some ''oracle''\<rparr>)\<rparr> = ?h0"
    by (simp add: with_copy_def)
  show ?thesis
    unfolding run_experiment_def Let_def 0 1
    by (simp add: tag split: sum.splits)
qed

lemma run_experiment_frame:
  assumes "a < top h" and "a \<notin> set trees"
  shows "objs (snd (run_experiment self fn fl s subscribers trees h)) a = objs h a"
proof -
  let ?h0 = "with_copy self h"
  obtain r1 h1 where 1: "get_reachability fn fl s (set subscribers) [top h] ?h0 = (r1, h1)"
    by (cases "get_reachability fn fl s (set subscribers) [top h] ?h0")
  obtain r2 h2 where 2: "get_reachability fn fl s (set subscribers) trees h1 = (r2, h2)"
    by (cases "get_reachability fn fl s (set subscribers) trees h1")
  have "objs h1 a = objs ?h0 a"
    using get_reachability_frame [of fn fl s "set subscribers" "[top h]" ?h0 a] 1 assms(1)
    by simp
  then have a1: "objs h1 a = objs h a" using assms(1) by (simp add: with_copy_def)
  have a2: "objs h2 a = objs h1 a"
    using get_reachability_frame [of fn fl s "set subscribers" trees h1 a] 2 assms(2)
    by simp
  show ?thesis
    using a1 a2
    by (cases r1; cases r2)
       (simp_all add: run_experiment_unfold 1 2 split: list.splits option.splits)
qed

lemma links_heuristic_update [simp]: "links (G\<lparr>heuristic := x\<rparr>) = links G"
  by (simp add: links_def)

lemma wf_graph_heuristic_update [simp]: "wf_graph (G\<lparr>heuristic := x\<rparr>) = wf_graph G"
  by (simp add: wf_graph_def)

lemma reachable_after_heuristic_update [simp]:
  "reachable_after (G\<lparr>heuristic := x\<rparr>) fn fl s = reachable_after G fn fl s"
  by (simp add: reachable_after_def surviving_links_def)

lemma subgraph_links: "subgraph T G \<Longrightarrow> links T \<subseteq> links G"
  by (auto simp: subgraph_def links_def)

lemma subgraph_reachable_after:
  assumes "subgraph T G"
  shows "reachable_after T fn fl s \<subseteq> reachable_after G fn fl s"
proof -
  have "surviving_links T fn fl \<subseteq> surviving_links G fn fl"
    using subgraph_links [OF assms] by (auto simp: surviving_links_def)
  then have "(surviving_links T fn fl)\<^sup>* \<subseteq> (surviving_links G fn fl)\<^sup>*"
    by (rule rtrancl_mono)
  then show ?thesis by (auto simp: reachable_after_def)
qed

lemma run_experiment_result:
  assumes ok: "fst (run_experiment self fn fl s subscribers trees h) = Inr result"
    and valid: "\<forall>t \<in> set trees. t < top h"
  shows "\<exists>a b name. result = [''oracle'' \<mapsto> JFloat a, name \<mapsto> JFloat b] \<and>
           trees \<noteq> [] \<and> heuristic (objs h (hd trees)) = Some name \<and>
           fst (get_reachability fn fl s (set subscribers) [top h] (with_copy self h)) = Inr a \<and>
           fst (get_reachability fn fl s (set subscribers) trees h) = Inr b"
proof -
  let ?h0 = "with_copy self h"
  obtain r1 h1 where 1: "get_reachability fn fl s (set subscribers) [top h] ?h0 = (r1, h1)"
    by (cases "get_reachability fn fl s (set subscribers) [top h] ?h0")
  obtain r2 h2 where 2: "get_reachability fn fl s (set subscribers) trees h1 = (r2, h2)"
    by (cases "get_reachability fn fl s (set subscribers) trees h1")
  have h1: "objs h1 t = objs h t" if "t \<in> set trees" for t
  proof -
    from that valid have ne: "t \<noteq> top h" by auto
    then have "objs h1 t = objs ?h0 t"
      using get_reachability_frame [of fn fl s "set subscribers" "[top h]" ?h0 t] 1 by simp
    then show ?thesis using ne by (simp add: with_copy_def)
  qed
  have same: "fst (get_reachability fn fl s (set subscribers) trees h1) =
              fst (get_reachability fn fl s (set subscribers) trees h)"
    by (rule get_reachability_cong) (simp add: h1)
  have tags: "heuristic (objs h2 t) = heuristic (objs h t)" if "t \<in> set trees" for t
    using get_reachability_heuristic [of fn fl s "set subscribers" trees h1 t] 2 h1 [OF that]
    by simp
  from ok obtain a b t ts name where
    "r1 = Inr a" "r2 = Inr b" "trees = t # ts" "heuristic (objs h2 t) = Some name"
    "result = [''oracle'' \<mapsto> JFloat a, name \<mapsto> JFloat b]"
    by (cases r1; cases r2)
       (auto simp: run_experiment_unfold 1 2 split: list.splits option.splits)
  then show ?thesis using 1 2 same tags [of t] by auto
qed

lemma get_reachability_Inr_wf:
  assumes "fst (get_reachability fn fl s subs ts h) = Inr x"
    and "\<forall>t \<in> set ts. wf_graph (objs h t)"
  shows "x = reachability_fraction (map (objs h) ts) fn fl s subs"
proof -
  from assms(1) have none: "\<forall>t \<in> set ts. graph_reach fn fl s (objs h t) \<noteq> None"
    by (auto simp: get_reachability_value split: if_splits)
  have g: "the (graph_reach fn fl s (objs h t)) = reachable_after (objs h t) fn fl s"
    if "t \<in> set ts" for t
    using that none assms(2) graph_reach_wf [of "objs h t" fn fl s]
    by (auto split: if_splits)
  have "(\<Union>t \<in> set ts. subs \<inter> the (graph_reach fn fl s (objs h t))) =
        (\<Union>t \<in> set ts. subs \<inter> reachable_after (objs h t) fn fl s)"
    using g by simp
  with assms(1) none show ?thesis
    by (simp add: get_reachability_value reachability_fraction_def split: if_splits)
qed

lemma tag_trees_objs:
  "objs (fold (\<lambda>tree h. h\<lparr>objs := (objs h)(tree := (objs h tree)\<lparr>heuristic := Some name\<rparr>)\<rparr>) trees h) a
     = (if a \<in> set trees then (objs h a)\<lparr>heuristic := Some name\<rparr> else objs h a)"
  by (induction trees arbitrary: h) auto

lemma build_mcast_trees_tags:
  assumes "t \<in> set (fst (build_mcast_trees E self source subscribers w))"
  shows "heuristic (objs (heap (snd (build_mcast_trees E self source subscribers w))) t)
           = Some (mcast_heuristic self)"
proof -
  obtain trees h where p: "get_redundant_multicast_trees E source subscribers (ntrees self)
                             (mcast_heuristic self) (heap w) = (trees, h)"
    by (cases "get_redundant_multicast_trees E source subscribers (ntrees self)
                 (mcast_heuristic self) (heap w)")
  from assms have "t \<in> set trees" by (simp add: build_mcast_trees_def p)
  then show ?thesis by (simp add: build_mcast_trees_def p tag_trees_objs)
qed

lemma run_all_experiments_no_runs:
  "nruns self \<le> 0 \<Longrightarrow> run_all_experiments E self w = (Inr (), output_results w)"
  by (simp add: run_all_experiments_def)

lemma run_trial_configuration_error_kind:
  assumes "int (length (get_hosts E (heap w))) < nsubscribers self \<or> get_servers E (heap w) = []"
  shows "fst (run_trial E self r w) =
           Inl (if int (length (get_hosts E (heap w))) < nsubscribers self \<or> nsubscribers self < 0
                then ValueError else IndexError) \<and>
         results (snd (run_trial E self r w)) = results w \<and>
         output_file (snd (run_trial E self r w)) = output_file w"
proof (cases "0 \<le> nsubscribers self \<and> nsubscribers self \<le> int (length (get_hosts E (heap w)))")
  case False
  then have "choose_subscribers E self w = (Inl ValueError, w)"
    by (simp add: choose_subscribers_def Let_def)
  then show ?thesis using False by (auto simp: run_trial_def)
next
  case True
  with assms have servers: "get_servers E (heap w) = []" by auto
  obtain subs rnd where s: "sample E (random w) (get_hosts E (heap w)) (nat (nsubscribers self))
                              = (subs, rnd)"
    by (cases "sample E (random w) (get_hosts E (heap w)) (nat (nsubscribers self))")
  from True s have 1: "choose_subscribers E self w = (Inr subs, w\<lparr>random := rnd\<rparr>)"
    by (simp add: choose_subscribers_def Let_def)
  from servers have 2: "choose_server E self (w\<lparr>random := rnd\<rparr>) = (Inl IndexError, w\<lparr>random := rnd\<rparr>)"
    by (simp add: choose_server_def)
  show ?thesis using True by (simp add: run_trial_def 1 2)
qed

lemma run_all_experiments_first_trial_raises:
  assumes "0 < nruns self" and "fst (run_trial E self 0 w) = Inl e"
  shows "run_all_experiments E self w = run_trial E self 0 w"
proof -
  from assms(1) have u: "[0 ..< nat (nruns self)] = 0 # [Suc 0 ..< nat (nruns self)]"
    by (simp add: upt_conv_Cons)
  obtain r w' where t: "run_trial E self 0 w = (r, w')" by (cases "run_trial E self 0 w")
  with assms(2) show ?thesis by (simp add: run_all_experiments_def u)
qed

section \<open>Claims about a trial and about the driver\<close>

text \<open>
  C2. In a trial that returns a result, with every tree a subgraph of the full topology (and
  every tree an object that existed before the trial), the result holds the reachability
  fraction of the full topology under the key \<open>oracle\<close> and the reachability fraction of the
  trees under the name of their heuristic, and the second is at most the first.
\<close>

theorem oracle_bounds_heuristic:
  assumes "fst (run_experiment self failed_nodes failed_links server subscribers trees h) = Inr result"
    and "\<forall>t \<in> set trees. t < top h"
    and "wf_graph (objs h (topo self))"
    and "\<forall>t \<in> set trees. wf_graph (objs h t) \<and> subgraph (objs h t) (objs h (topo self))"
  shows "\<exists>a b name.
           result = [''oracle'' \<mapsto> JFloat a, name \<mapsto> JFloat b] \<and>
           heuristic (objs h (hd trees)) = Some name \<and>
           a = reachability_fraction [objs h (topo self)] failed_nodes failed_links server
                 (set subscribers) \<and>
           b = reachability_fraction (map (objs h) trees) failed_nodes failed_links server
                 (set subscribers) \<and>
           b \<le> a"
proof -
  let ?G = "objs h (topo self)"
  let ?S = "set subscribers"
  from run_experiment_result [OF assms(1,2)]
  obtain a b name where r: "result = [''oracle'' \<mapsto> JFloat a, name \<mapsto> JFloat b]"
    and tag: "heuristic (objs h (hd trees)) = Some name"
    and oa: "fst (get_reachability failed_nodes failed_links server ?S [top h] (with_copy self h)) = Inr a"
    and tb: "fst (get_reachability failed_nodes failed_links server ?S trees h) = Inr b"
    by blast
  have "a = reachability_fraction (map (objs (with_copy self h)) [top h])
              failed_nodes failed_links server ?S"
    by (rule get_reachability_Inr_wf [OF oa]) (simp add: with_copy_def assms(3))
  then have a: "a = reachability_fraction [?G] failed_nodes failed_links server ?S"
    by (simp add: with_copy_def reachability_fraction_def)
  have b: "b = reachability_fraction (map (objs h) trees) failed_nodes failed_links server ?S"
    by (rule get_reachability_Inr_wf [OF tb]) (simp add: assms(4))
  have "(\<Union>G \<in> set (map (objs h) trees). ?S \<inter> reachable_after G failed_nodes failed_links server)
          \<subseteq> (\<Union>G \<in> set [?G]. ?S \<inter> reachable_after G failed_nodes failed_links server)"
    using assms(4) subgraph_reachable_after [of _ ?G failed_nodes failed_links server] by auto
  moreover have "finite (\<Union>G \<in> set [?G]. ?S \<inter> reachable_after G failed_nodes failed_links server)"
    by simp
  ultimately have "card (\<Union>G \<in> set (map (objs h) trees).
                      ?S \<inter> reachable_after G failed_nodes failed_links server)
                 \<le> card (\<Union>G \<in> set [?G]. ?S \<inter> reachable_after G failed_nodes failed_links server)"
    by (rule card_mono [rotated])
  then have "b \<le> a"
    unfolding a b reachability_fraction_def by (simp add: divide_right_mono)
  with r tag a b show ?thesis by blast
qed

theorem oracle_bounds_heuristic_witness:
  "fst (run_experiment path4_self [] [(2, 3)] 1 [2, 4] [2] path4_heap) =
     Inr [''oracle'' \<mapsto> JFloat (1 / 2), ''closure'' \<mapsto> JFloat (1 / 2)] \<and>
   (\<exists>a b name.
      [''oracle'' \<mapsto> JFloat (1 / 2), ''closure'' \<mapsto> JFloat (1 / 2)] =
        [''oracle'' \<mapsto> JFloat a, name \<mapsto> JFloat b] \<and>
      heuristic (objs path4_heap (hd [2])) = Some name \<and>
      a = reachability_fraction [objs path4_heap (topo path4_self)] [] [(2, 3)] 1 (set [2, 4]) \<and>
      b = reachability_fraction (map (objs path4_heap) [2]) [] [(2, 3)] 1 (set [2, 4]) \<and>
      b \<le> a)"
proof -
  have 1: "fst (run_experiment path4_self [] [(2, 3)] 1 [2, 4] [2] path4_heap) =
             Inr [''oracle'' \<mapsto> JFloat (1 / 2), ''closure'' \<mapsto> JFloat (1 / 2)]"
    by (simp add: run_experiment_def path4_eval)
  have 2: "\<forall>t \<in> set [2]. t < top path4_heap" by (simp add: path4_heap_def)
  have 3: "wf_graph (objs path4_heap (topo path4_self))"
    by (simp add: path4_heap_def path4_self_def path4_def wf_graph_def)
  have 4: "\<forall>t \<in> set [2]. wf_graph (objs path4_heap t) \<and>
             subgraph (objs path4_heap t) (objs path4_heap (topo path4_self))"
    by (simp add: path4_heap_def path4_self_def path4_def path2_def wf_graph_def subgraph_def)
  from 1 oracle_bounds_heuristic [OF 1 2 3 4] show ?thesis by blast
qed

text \<open>
  C7. The graph of the canonical topology is the same after \<open>run_experiment\<close> as before,
  whether the trial returns or raises: the removals reach the copy and the tree objects only.
  The topology is an object that exists before the trial, and the trees handed in are objects
  of their own, none of them the topology itself.
\<close>

theorem run_experiment_keeps_canonical_topology:
  assumes "topo self < top h" and "topo self \<notin> set trees"
  shows "objs (snd (run_experiment self failed_nodes failed_links server subscribers trees h))
           (topo self) = objs h (topo self)"
  using assms by (rule run_experiment_frame)

theorem run_experiment_keeps_canonical_topology_witness:
  "topo path4_self < top path4_heap \<and> topo path4_self \<notin> set [1, 2] \<and>
   objs (snd (run_experiment path4_self [3] [(1, 2)] 1 [2, 4] [1, 2] path4_heap)) (topo path4_self)
     = objs path4_heap (topo path4_self)"
proof -
  have 1: "topo path4_self < top path4_heap" by (simp add: path4_self_def path4_heap_def)
  have 2: "topo path4_self \<notin> set [1, 2]" by (simp add: path4_self_def)
  from 1 2 run_experiment_keeps_canonical_topology [OF 1 2] show ?thesis by blast
qed

text \<open>
  C10. When the configured heuristic name is \<open>oracle\<close>, the trees that \<open>build_mcast_trees\<close>
  returns are tagged \<open>oracle\<close>. A trial on them that returns a result has evaluated the copy
  of the full topology to a score \<open>a\<close> and the trees to a score \<open>b\<close>, has stored \<open>a\<close> under
  the key \<open>oracle\<close> and then \<open>b\<close> under the same key: the dictionary returned has the single
  key \<open>oracle\<close>, and its value is the reachability of the trees.
\<close>

theorem oracle_heuristic_overwrites_oracle_score:
  assumes "mcast_heuristic self = ''oracle''"
    and "trees = fst (build_mcast_trees E self server subscribers w)"
    and "h = heap (snd (build_mcast_trees E self server subscribers w))"
    and "\<forall>t \<in> set trees. t < top h"
    and "fst (run_experiment self failed_nodes failed_links server subscribers trees h) = Inr result"
  shows "\<exists>a b.
           fst (get_reachability failed_nodes failed_links server (set subscribers) [top h]
                  (with_copy self h)) = Inr a \<and>
           fst (get_reachability failed_nodes failed_links server (set subscribers) trees h) = Inr b \<and>
           result = [''oracle'' \<mapsto> JFloat a](''oracle'' \<mapsto> JFloat b) \<and>
           dom result = {''oracle''} \<and>
           result ''oracle'' = Some (JFloat b)"
proof -
  from run_experiment_result [OF assms(5,4)]
  obtain a b name where r: "result = [''oracle'' \<mapsto> JFloat a, name \<mapsto> JFloat b]"
    and ne: "trees \<noteq> []"
    and tag: "heuristic (objs h (hd trees)) = Some name"
    and oa: "fst (get_reachability failed_nodes failed_links server (set subscribers) [top h]
                    (with_copy self h)) = Inr a"
    and tb: "fst (get_reachability failed_nodes failed_links server (set subscribers) trees h) = Inr b"
    by blast
  from ne have "hd trees \<in> set trees" by simp
  then have "heuristic (objs h (hd trees)) = Some (mcast_heuristic self)"
    unfolding assms(2,3) by (rule build_mcast_trees_tags)
  with tag assms(1) have "name = ''oracle''" by simp
  with r oa tb show ?thesis by auto
qed

theorem oracle_heuristic_overwrites_oracle_score_witness:
  "fst (get_reachability [] [] 1 (set [2, 4])
          [top (heap (snd (build_mcast_trees path2_env (path4_self\<lparr>mcast_heuristic := ''oracle''\<rparr>)
                             1 [2, 4] path4_world)))]
          (with_copy (path4_self\<lparr>mcast_heuristic := ''oracle''\<rparr>)
             (heap (snd (build_mcast_trees path2_env (path4_self\<lparr>mcast_heuristic := ''oracle''\<rparr>)
                           1 [2, 4] path4_world))))) = Inr 1 \<and>
   fst (get_reachability [] [] 1 (set [2, 4])
          (fst (build_mcast_trees path2_env (path4_self\<lparr>mcast_heuristic := ''oracle''\<rparr>) 1 [2, 4]
                  path4_world))
          (heap (snd (build_mcast_trees path2_env (path4_self\<lparr>mcast_heuristic := ''oracle''\<rparr>) 1
                        [2, 4] path4_world)))) = Inr (1 / 2) \<and>
   fst (run_experiment (path4_self\<lparr>mcast_heuristic := ''oracle''\<rparr>) [] [] 1 [2, 4]
          (fst (build_mcast_trees path2_env (path4_self\<lparr>mcast_heuristic := ''oracle''\<rparr>) 1 [2, 4]
                  path4_world))
          (heap (snd (build_mcast_trees path2_env (path4_self\<lparr>mcast_heuristic := ''oracle''\<rparr>) 1
                        [2, 4] path4_world))))
     = Inr [''oracle'' \<mapsto> JFloat (1 / 2)]"
proof -
  let ?self = "path4_self\<lparr>mcast_heuristic := ''oracle''\<rparr>"
  let ?b = "build_mcast_trees path2_env ?self 1 [2, 4] path4_world"
  have 1: "mcast_heuristic ?self = ''oracle''" by simp
  have 4: "\<forall>t \<in> set (fst ?b). t < top (heap (snd ?b))"
    by (simp add: build_mcast_trees_def path2_env_def path4_env_def path4_world_def
                  path4_heap_def path4_self_def)
  have 5: "fst (run_experiment ?self [] [] 1 [2, 4] (fst ?b) (heap (snd ?b)))
             = Inr [''oracle'' \<mapsto> JFloat (1 / 2)]"
    by (simp add: driver_eval path4_eval)
  have 6: "fst (get_reachability [] [] 1 (set [2, 4]) [top (heap (snd ?b))]
                  (with_copy ?self (heap (snd ?b)))) = Inr 1"
    by (simp add: driver_eval path4_eval with_copy_def)
  let ?O = "fst (get_reachability [] [] 1 (set [2, 4]) [top (heap (snd ?b))]
                  (with_copy ?self (heap (snd ?b))))"
  let ?T = "fst (get_reachability [] [] 1 (set [2, 4]) (fst ?b) (heap (snd ?b)))"
  from oracle_heuristic_overwrites_oracle_score [OF 1 refl refl 4 5]
  obtain a b where "?O = Inr a" and e2: "?T = Inr b"
    and e3: "[''oracle'' \<mapsto> JFloat (1 / 2)] ''oracle'' = Some (JFloat b)"
    by (elim exE conjE) (rule that, assumption+)
  from e3 have "b = 1 / 2" by simp
  with e2 have 7: "?T = Inr (1 / 2)" by simp
  from 6 7 5 show ?thesis by (intro conjI)
qed

text \<open>
  C4. The claim asks that a trial for which the heuristic returns no tree still produces a
  record. With a topology that returns no tree, the first of two requested trials raises
  \<open>IndexError\<close> at \<open>trees[0]\<close>; the run ends there with no record at all and nothing
  written.
\<close>

theorem zero_trees_aborts_run:
  "fst (run_all_experiments no_trees_env (path4_self\<lparr>nruns := 2\<rparr>) path4_world) = Inl IndexError \<and>
   results (snd (run_all_experiments no_trees_env (path4_self\<lparr>nruns := 2\<rparr>) path4_world)) = [] \<and>
   output_file (snd (run_all_experiments no_trees_env (path4_self\<lparr>nruns := 2\<rparr>) path4_world)) = None"
  by (simp add: driver_eval path4_eval upt_rec)

text \<open>
  C6 (as amended). Take a configuration that the constructor accepts otherwise (topology type
  \<open>networkx\<close>, a topology that can be built, the keyword \<open>failure_rand_seed\<close> given) and in
  which the number of subscribers exceeds the number of hosts, or there is no server. The
  constructor returns the experiment without raising, with an empty results list and nothing
  written. If at least one run is requested, \<open>run_all_experiments\<close> ends as its first trial
  ends: with \<open>ValueError\<close> from \<open>random.sample\<close> when the number of subscribers is out of
  range, otherwise with \<open>IndexError\<close> from \<open>random.choice\<close>; the results list is still
  empty and nothing is written. If no run is requested, nothing raises and the output file is
  written, with an empty results list.
\<close>

theorem configuration_error_not_at_setup:
  fixes S :: "('n, 'r, 'f) factory" and E :: "('n, 'r, 'f) env"
  assumes "arg_topo a = ''networkx'' # params"
    and "new_topology S params = Inr (h, t)"
    and "''failure_rand_seed'' \<in> set (arg_kwargs a)"
    and "int (length (get_hosts E h)) < arg_nsubscribers a \<or> get_servers E h = []"
  shows "\<exists>self w.
           init S a = Inr (self, w) \<and> results w = [] \<and> output_file w = None \<and>
           (0 < arg_nruns a \<longrightarrow>
              run_all_experiments E self w = run_trial E self 0 w \<and>
              fst (run_all_experiments E self w) =
                Inl (if int (length (get_hosts E h)) < arg_nsubscribers a \<or> arg_nsubscribers a < 0
                     then ValueError else IndexError) \<and>
              results (snd (run_all_experiments E self w)) = [] \<and>
              output_file (snd (run_all_experiments E self w)) = None) \<and>
           (arg_nruns a \<le> 0 \<longrightarrow>
              fst (run_all_experiments E self w) = Inr () \<and>
              results (snd (run_all_experiments E self w)) = [] \<and>
              output_file (snd (run_all_experiments E self w)) = Some [])"
proof -
  define self where "self = \<lparr>nruns = arg_nruns a, ntrees = arg_ntrees a,
    nsubscribers = arg_nsubscribers a, mcast_heuristic = arg_mcast_heuristic a, topo = t\<rparr>"
  define w where "w = \<lparr>random = new_random S (arg_choice_rand_seed a),
    fm_state = (case arg_failure_model a of None \<Rightarrow> default_failure_model S | Some f \<Rightarrow> f),
    heap = h, results = [], output_file = None\<rparr>"
  have i: "init S a = Inr (self, w)"
    using assms(1-3) by (simp add: init_def self_def w_def)
  have w0: "results w = []" "output_file w = None" "heap w = h" by (simp_all add: w_def)
  have s0: "nruns self = arg_nruns a" "nsubscribers self = arg_nsubscribers a"
    by (simp_all add: self_def)
  have c: "int (length (get_hosts E (heap w))) < nsubscribers self \<or> get_servers E (heap w) = []"
    using assms(4) by (simp add: w0 s0)
  note k = run_trial_configuration_error_kind [OF c, of 0]
  have pos: "run_all_experiments E self w = run_trial E self 0 w" if "0 < arg_nruns a"
    using that k by (intro run_all_experiments_first_trial_raises) (simp_all add: s0)
  have zero: "run_all_experiments E self w = (Inr (), output_results w)" if "arg_nruns a \<le> 0"
    using that by (intro run_all_experiments_no_runs) (simp add: s0)
  show ?thesis
  proof (intro exI conjI impI)
    show "init S a = Inr (self, w)" by (rule i)
  qed (use k pos zero in \<open>simp_all add: w0 s0 output_results_def\<close>)
qed

theorem configuration_error_not_at_setup_witness:
  "(\<exists>self w. init path4_factory (path4_args 1 3) = Inr (self, w) \<and>
      results w = [] \<and> output_file w = None \<and>
      run_all_experiments path4_env self w = run_trial path4_env self 0 w \<and>
      fst (run_all_experiments path4_env self w) = Inl ValueError \<and>
      results (snd (run_all_experiments path4_env self w)) = [] \<and>
      output_file (snd (run_all_experiments path4_env self w)) = None) \<and>
   (\<exists>self w. init path4_factory (path4_args 0 3) = Inr (self, w) \<and>
      fst (run_all_experiments path4_env self w) = Inr () \<and>
      output_file (snd (run_all_experiments path4_env self w)) = Some [])"
proof -
  have 1: "arg_topo (path4_args n k) = ''networkx'' # []" for n k
    by (simp add: path4_args_def)
  have 2: "new_topology path4_factory [] = Inr (path4_heap, 0)"
    by (simp add: path4_factory_def)
  have 3: "''failure_rand_seed'' \<in> set (arg_kwargs (path4_args n k))" for n k
    by (simp add: path4_args_def)
  have 4: "int (length (get_hosts path4_env path4_heap)) < arg_nsubscribers (path4_args n 3) \<or>
           get_servers path4_env path4_heap = []" for n
    by (simp add: path4_args_def path4_env_def)
  have a: "arg_nruns (path4_args n k) = n" "arg_nsubscribers (path4_args n k) = k" for n k
    by (simp_all add: path4_args_def)
  have l: "length (get_hosts path4_env path4_heap) = 2" by (simp add: path4_env_def)
  note one = configuration_error_not_at_setup [OF 1 [of 1 3] 2 3 [of 1 3] 4 [of 1]]
  note none = configuration_error_not_at_setup [OF 1 [of 0 3] 2 3 [of 0 3] 4 [of 0]]
  from one obtain self w where
    "init path4_factory (path4_args 1 3) = Inr (self, w)" "results w = []" "output_file w = None"
    "run_all_experiments path4_env self w = run_trial path4_env self 0 w"
    "fst (run_all_experiments path4_env self w) = Inl ValueError"
    "results (snd (run_all_experiments path4_env self w)) = []"
    "output_file (snd (run_all_experiments path4_env self w)) = None"
    unfolding a l by auto
  then have A: "\<exists>self w. init path4_factory (path4_args 1 3) = Inr (self, w) \<and>
      results w = [] \<and> output_file w = None \<and>
      run_all_experiments path4_env self w = run_trial path4_env self 0 w \<and>
      fst (run_all_experiments path4_env self w) = Inl ValueError \<and>
      results (snd (run_all_experiments path4_env self w)) = [] \<and>
      output_file (snd (run_all_experiments path4_env self w)) = None"
    by blast
  from none obtain self' w' where
    "init path4_factory (path4_args 0 3) = Inr (self', w')"
    "fst (run_all_experiments path4_env self' w') = Inr ()"
    "output_file (snd (run_all_experiments path4_env self' w')) = Some []"
    unfolding a l by auto
  then have B: "\<exists>self w. init path4_factory (path4_args 0 3) = Inr (self, w) \<and>
      fst (run_all_experiments path4_env self w) = Inr () \<and>
      output_file (snd (run_all_experiments path4_env self w)) = Some []"
    by blast
  from A B show ?thesis by (rule conjI)
qed

text \<open>
  C6 as stated fails when no trial is requested: with three subscribers asked of two hosts and
  \<open>nruns = 0\<close>, nothing raises and the output file is written, with an empty results list.
\<close>

theorem configuration_error_at_setup_counterexample:
  "int (length (get_hosts path4_env (heap path4_world)))
     < nsubscribers (path4_self\<lparr>nruns := 0, nsubscribers := 3\<rparr>) \<and>
   fst (run_all_experiments path4_env (path4_self\<lparr>nruns := 0, nsubscribers := 3\<rparr>) path4_world)
     = Inr () \<and>
   output_file (snd (run_all_experiments path4_env (path4_self\<lparr>nruns := 0, nsubscribers := 3\<rparr>)
                       path4_world)) = Some []"
  by (simp add: driver_eval path4_self_def)

end
